theory Spec2Isabelle
  imports Complex_Main "HOL-Library.FSet" "HOL-Library.Word" "HOL-Library.Signed_Division"
    "HOL-Library.Log_Nat"
begin

section \<open>Data model\<close>

text \<open>
  The functions of \<^verbatim>\<open>src/algorithm.ts\<close> work on JavaScript objects:
  a \<^verbatim>\<open>Set<Flashcard>\<close> is a mutable object that several containers may share, and
  \<^verbatim>\<open>update\<close> writes to such sets. The sets therefore live in an explicit store: an
  address is an index into the list of all \<^verbatim>\<open>Set\<close> objects allocated so far, and
  \<^verbatim>\<open>new Set()\<close> appends a cell. A set's content is a finite set of card references
  (sets compare their elements by reference, so the functions are polymorphic in the type
  \<open>'c\<close> of card references; no function of the file observes a set's iteration order
  other than by copying it into another set).
\<close>

type_synonym addr = nat

type_synonym 'c heap = "'c fset list"

text \<open>
  A \<^verbatim>\<open>BucketMap\<close> is a \<^verbatim>\<open>Map<number, Set<Flashcard>>\<close>: its entries in insertion order
  (which the loop of \<^verbatim>\<open>update\<close> observes), each a bucket number and the address of a set.
  A well-formed map has pairwise distinct keys, and its addresses are allocated.
\<close>

type_synonym BucketMap = "(int \<times> addr) list"

text \<open>
  The operations of a JavaScript \<^verbatim>\<open>Map\<close> on its entry list: \<^verbatim>\<open>set\<close> overwrites the
  value of a present key in place and appends an absent key.
\<close>

definition map_has :: "'k \<Rightarrow> ('k \<times> 'v) list \<Rightarrow> bool" where
  "map_has k m = (k \<in> set (map fst m))"

definition map_get :: "'k \<Rightarrow> ('k \<times> 'v) list \<Rightarrow> 'v option" where
  "map_get k m = map_of m k"

definition map_delete :: "'k \<Rightarrow> ('k \<times> 'v) list \<Rightarrow> ('k \<times> 'v) list" where
  "map_delete k m = filter (\<lambda>e. fst e \<noteq> k) m"

fun map_set :: "'k \<Rightarrow> 'v \<Rightarrow> ('k \<times> 'v) list \<Rightarrow> ('k \<times> 'v) list" where
  "map_set k v [] = [(k, v)]"
| "map_set k v (e # es) = (if fst e = k then (k, v) # es else e # map_set k v es)"

text \<open>
  \<^verbatim>\<open>Math.max\<close> of a list of integers; of no argument at all it is \<^verbatim>\<open>-Infinity\<close>,
  which is \<open>None\<close> here.
\<close>

fun math_max :: "int list \<Rightarrow> int option" where
  "math_max [] = None"
| "math_max (x # xs) = (case math_max xs of None \<Rightarrow> Some x | Some y \<Rightarrow> Some (max x y))"

definition wf_map :: "'c heap \<Rightarrow> BucketMap \<Rightarrow> bool" where
  "wf_map h m = (distinct (map fst m) \<and> (\<forall>e \<in> set m. snd e < length h))"

text \<open>Bucket numbers are non-negative integers; the keys of a map are numbers of any sign.\<close>

definition nonneg_buckets :: "BucketMap \<Rightarrow> bool" where
  "nonneg_buckets m = (\<forall>e \<in> set m. 0 \<le> fst e)"

text \<open>The cards of bucket \<open>k\<close>, as a reader of the map sees them in store \<open>h\<close>.\<close>

definition bucket_cards :: "'c heap \<Rightarrow> BucketMap \<Rightarrow> int \<Rightarrow> 'c fset" where
  "bucket_cards h m k = (case map_get k m of None \<Rightarrow> {||} | Some a \<Rightarrow> h ! a)"

text \<open>
  The invariant of the sparse mapping: a present bucket holds a non-empty set, and no card
  is in two buckets.
\<close>

definition no_empty_bucket :: "'c heap \<Rightarrow> BucketMap \<Rightarrow> bool" where
  "no_empty_bucket h m = (\<forall>e \<in> set m. h ! snd e \<noteq> {||})"

definition one_bucket_per_card :: "'c heap \<Rightarrow> BucketMap \<Rightarrow> bool" where
  "one_bucket_per_card h m =
     (\<forall>e \<in> set m. \<forall>e' \<in> set m. fst e \<noteq> fst e' \<longrightarrow> h ! snd e |\<inter>| h ! snd e' = {||})"

text \<open>The numbers of the buckets whose set holds card \<open>c\<close>, in the order of the map.\<close>

definition card_buckets :: "'c heap \<Rightarrow> BucketMap \<Rightarrow> 'c \<Rightarrow> int list" where
  "card_buckets h m c = map fst (filter (\<lambda>e. c |\<in>| h ! snd e) m)"

text \<open>
  Modelled from the spec: the enumeration \<^verbatim>\<open>AnswerDifficulty\<close> of \<^verbatim>\<open>flashcards.ts\<close>,
  which is not among the sources; the spec gives it exactly three variants.
\<close>

datatype AnswerDifficulty = Wrong | Hard | Easy

datatype error = HistoryEmpty | TypeError

section \<open>The progression engine\<close>

text \<open>
  The loop of \<^verbatim>\<open>update\<close> walks the entries in order and stops at the first set that
  has the card; it yields that entry's bucket number and set.
\<close>

fun find_card :: "'c heap \<Rightarrow> 'c \<Rightarrow> BucketMap \<Rightarrow> (int \<times> addr) option" where
  "find_card h c [] = None"
| "find_card h c (e # es) = (if c |\<in>| h ! snd e then Some e else find_card h c es)"

definition next_bucket :: "AnswerDifficulty \<Rightarrow> int \<Rightarrow> int" where
  "next_bucket difficulty currentBucket =
     (case difficulty of
        Wrong \<Rightarrow> 0
      | Easy \<Rightarrow> (if currentBucket = 5 then currentBucket else currentBucket + 1)
      | Hard \<Rightarrow> max 0 (currentBucket - 1))"

text \<open>
  \<^verbatim>\<open>new Map(buckets)\<close> is a new map object with the entries of \<^verbatim>\<open>buckets\<close>: the same
  keys and the same set objects. Maps are values here, so the copy is the entry list
  itself, and what the caller's map holds after the call is that list read in the store
  the call returns. The non-null assertion of the last statement is a run-time
  \<^verbatim>\<open>TypeError\<close> when the lookup finds nothing.
\<close>

definition update ::
  "'c heap \<Rightarrow> BucketMap \<Rightarrow> 'c \<Rightarrow> AnswerDifficulty \<Rightarrow> error + ('c heap \<times> BucketMap)" where
  "update h buckets card' difficulty =
     (let newMap = buckets in
      case find_card h card' newMap of
        None \<Rightarrow> Inr (h, newMap)
      | Some (currentBucket, cards) \<Rightarrow>
          let h1 = h[cards := h ! cards |-| {|card'|}];
              newMap1 = (if h1 ! cards = {||} then map_delete currentBucket newMap else newMap);
              newBucket = next_bucket difficulty currentBucket;
              (h2, newMap2) =
                (if \<not> map_has newBucket newMap1
                 then (h1 @ [{||}], map_set newBucket (length h1) newMap1)
                 else (h1, newMap1))
          in case map_get newBucket newMap2 of
               None \<Rightarrow> Inl TypeError
             | Some dest \<Rightarrow> Inr (h2[dest := finsert card' (h2 ! dest)], newMap2))"

section \<open>Bucket representation conversion\<close>

text \<open>
  The dense array is an \<^verbatim>\<open>Array<Set<Flashcard>>\<close>: a list of addresses. Each turn of the
  loop of \<^verbatim>\<open>toBucketSets\<close> (\<open>toBucketSets_loop\<close>, over the indices) allocates one set, a copy of the map's set when the map
  has the index (\<^verbatim>\<open>new Set(undefined)\<close> is empty) and an empty one otherwise, and pushes
  it. A loop whose bound is \<^verbatim>\<open>-Infinity\<close> does not run.
\<close>

fun toBucketSets_loop ::
  "BucketMap \<Rightarrow> int list \<Rightarrow> 'c heap \<times> addr list \<Rightarrow> 'c heap \<times> addr list" where
  "toBucketSets_loop buckets [] (hh, result) = (hh, result)"
| "toBucketSets_loop buckets (i # is) (hh, result) =
     toBucketSets_loop buckets is
       (hh @ [if map_has i buckets
              then (case map_get i buckets of None \<Rightarrow> {||} | Some a \<Rightarrow> hh ! a)
              else {||}],
        result @ [length hh])"

definition toBucketSets :: "'c heap \<Rightarrow> BucketMap \<Rightarrow> 'c heap \<times> addr list" where
  "toBucketSets h buckets =
     (if length buckets = 0 then (h, [])
      else case math_max (map fst buckets) of
        None \<Rightarrow> (h, [])
      | Some maxBucket \<Rightarrow> toBucketSets_loop buckets [0..maxBucket] (h, []))"

section \<open>The scheduler\<close>

text \<open>
  \<^verbatim>\<open>practice\<close> allocates the result set and adds to it the cards of every due bucket;
  \<open>practice_loop\<close> is its loop over the indices of the array. The remainder \<^verbatim>\<open>%\<close>
  of JavaScript has the sign of the dividend: it is \<open>smod\<close>.
  The day is an integer, and the power is exact: where \<^verbatim>\<open>2 ** i\<close> overflows to
  \<^verbatim>\<open>Infinity\<close> the remainder is the day itself, as it is here for a power above the day.
\<close>

text \<open>The elements of a well-formed array are allocated sets.\<close>

definition wf_array :: "'c heap \<Rightarrow> addr list \<Rightarrow> bool" where
  "wf_array h bs = (\<forall>a \<in> set bs. a < length h)"

definition retiredBucket :: nat where
  "retiredBucket = 5"

fun practice_loop :: "addr list \<Rightarrow> int \<Rightarrow> addr \<Rightarrow> nat list \<Rightarrow> 'c heap \<Rightarrow> 'c heap" where
  "practice_loop buckets day result [] hh = hh"
| "practice_loop buckets day result (i # is) hh =
     practice_loop buckets day result is
       (if i = retiredBucket then hh
        else let interval = (2::int) ^ i
             in if day smod interval = 0
                then hh[result := hh ! result |\<union>| hh ! (buckets ! i)]
                else hh)"

definition practice :: "'c heap \<Rightarrow> addr list \<Rightarrow> int \<Rightarrow> 'c heap \<times> addr" where
  "practice h buckets day =
     (let result = length h;
          h0 = h @ [{||}]
      in (practice_loop buckets day result [0..<length buckets] h0, result))"

section \<open>The hint generator\<close>

text \<open>
  A JavaScript string is a sequence of 16-bit code units; \<^verbatim>\<open>split('')\<close> cuts a string
  into its code units. \<open>js\<close> reads an ASCII literal as such a string.
\<close>

type_synonym js_string = "16 word list"

definition js :: "string \<Rightarrow> js_string" where
  "js s = map (\<lambda>c. of_nat (of_char c)) s"

text \<open>
  The class \<^verbatim>\<open>\s\<close> of a regular expression: the white space and line terminator
  code points of ECMAScript.
\<close>

definition is_space :: "16 word \<Rightarrow> bool" where
  "is_space u =
     (u = 0x0009 \<or> u = 0x000A \<or> u = 0x000B \<or> u = 0x000C \<or> u = 0x000D \<or> u = 0x0020
      \<or> u = 0x00A0 \<or> u = 0x1680 \<or> (0x2000 \<le> u \<and> u \<le> 0x200A) \<or> u = 0x2028 \<or> u = 0x2029
      \<or> u = 0x202F \<or> u = 0x205F \<or> u = 0x3000 \<or> u = 0xFEFF)"

text \<open>
  Modelled from the spec: the class \<^verbatim>\<open>Flashcard\<close> of \<^verbatim>\<open>flashcards.ts\<close>, which is
  not among the sources: front and back text, a hint, and the tags (the tests construct a
  card from three strings and an array of strings). The field \<^verbatim>\<open>back\<close> is \<open>back'\<close>, \<open>back\<close>
  being a keyword.
\<close>

record Flashcard =
  front :: js_string
  back' :: js_string
  hint :: js_string
  tags :: "js_string list"

definition getHint :: "Flashcard \<Rightarrow> js_string" where
  "getHint card' =
     (if js ''language'' \<in> set (tags card')
      then let letters = filter (\<lambda>u. \<not> is_space u) (back' card')
           in if length letters = 0 then []
              else [letters ! 0] @ replicate (length letters - 1) (of_nat (of_char CHR ''_''))
      else hint card')"

section \<open>The progress reporter\<close>

text \<open>
  The numbers of JavaScript are IEEE 754 doubles. The counts of \<^verbatim>\<open>computeProgress\<close> are
  integers below \<open>2 ^ 53\<close> (an array has fewer than \<open>2 ^ 32\<close> elements), and sums of
  such integers are exact. The quotient \<^verbatim>\<open>totalPractices / total\<close> is rounded: \<open>js_div\<close>
  is the division of two such counts, the divisor positive, with the double that results
  given by its value, a rational number. The quotient \<open>x\<close> lies in one binade,
  \<open>2 ^ e \<le> x < 2 ^ (e + 1)\<close>, where the doubles are the multiples of \<open>2 ^ (e - 52)\<close>, and
  the result is the multiple nearest to \<open>x\<close>, the one with the even significand when
  two are equally near.
\<close>

definition round_half_even :: "rat \<Rightarrow> int" where
  "round_half_even x =
     (let q = \<lfloor>x\<rfloor>; f = x - of_int q
      in if f < 1 / 2 then q else if 1 / 2 < f then q + 1 else if even q then q else q + 1)"

definition binade :: "nat \<Rightarrow> nat \<Rightarrow> int" where
  "binade p t =
     (let e0 = bitlen (int p) - bitlen (int t)
      in if 2 powi e0 \<le> (of_nat p / of_nat t :: rat) then e0 else e0 - 1)"

definition js_div :: "nat \<Rightarrow> nat \<Rightarrow> rat" where
  "js_div p t =
     (if p = 0 then 0
      else let e = binade p t
           in of_int (round_half_even (of_nat p / of_nat t * 2 powi (52 - e))) * 2 powi (e - 52))"

text \<open>
  A history entry holds a card reference, a date (milliseconds since the epoch) and a
  difficulty.
\<close>

record 'c HistoryEntry =
  entry_card :: 'c
  date :: int
  difficulty :: AnswerDifficulty

record Progress =
  total :: nat
  buckets :: "nat list"
  averagePractices :: rat

definition computeProgress ::
  "'c heap \<Rightarrow> BucketMap \<Rightarrow> 'c HistoryEntry list \<Rightarrow> error + Progress" where
  "computeProgress h bucketMap history =
     (if length history = 0 then Inl HistoryEmpty
      else
        let total' = fold (\<lambda>s sum. sum + fcard s) (map (\<lambda>e. h ! snd e) bucketMap) 0;
            bucketCounts =
              (case math_max (map fst bucketMap @ [0]) of
                 None \<Rightarrow> []
               | Some maxBucket \<Rightarrow>
                   map (\<lambda>i. case map_get i bucketMap of None \<Rightarrow> 0 | Some a \<Rightarrow> fcard (h ! a))
                       [0..maxBucket]);
            practiceCounts =
              fold (\<lambda>entry pc.
                      map_set (entry_card entry)
                        ((case map_get (entry_card entry) pc of None \<Rightarrow> 0 | Some n \<Rightarrow> n) + 1) pc)
                   history ([] :: ('c \<times> nat) list);
            totalPractices = fold (\<lambda>b a. a + b) (map snd practiceCounts) 0;
            average = (if total' = 0 then 0 else js_div totalPractices total')
        in Inr \<lparr>total = total', buckets = bucketCounts, averagePractices = average\<rparr>)"

section \<open>Properties of the map operations\<close>

lemma find_card_None: "find_card h c m = None \<longleftrightarrow> (\<forall>e \<in> set m. c |\<notin>| h ! snd e)"
  by (induction m) auto

lemma map_has_get: "map_has k m \<longleftrightarrow> map_get k m \<noteq> None"
  by (simp add: map_has_def map_get_def map_of_eq_None_iff)

lemma map_get_delete: "map_get k' (map_delete k m) = (if k' = k then None else map_get k' m)"
  unfolding map_get_def map_delete_def by (induction m) auto

lemma map_get_set: "map_get k' (map_set k v m) = (if k' = k then Some v else map_get k' m)"
  unfolding map_get_def by (induction m) auto

lemma map_set_absent: "\<not> map_has k m \<Longrightarrow> map_set k v m = m @ [(k, v)]"
  unfolding map_has_def by (induction m) auto

lemma map_get_mem: "map_get k m = Some a \<Longrightarrow> (k, a) \<in> set m"
  by (simp add: map_get_def map_of_SomeD)

lemma map_get_of_mem: "distinct (map fst m) \<Longrightarrow> (k, a) \<in> set m \<Longrightarrow> map_get k m = Some a"
  by (simp add: map_get_def)

lemma map_get_inj:
  "distinct (map snd m) \<Longrightarrow> map_get k m = Some a \<Longrightarrow> map_get k' m = Some a \<Longrightarrow> k = k'"
  by (metis map_get_mem distinct_map inj_onD fst_conv snd_conv)

lemma find_card_Some: "find_card h c m = Some e \<Longrightarrow> e \<in> set m \<and> c |\<in>| h ! snd e"
  by (induction m) (auto split: if_splits)

lemma invariant_distinct_addrs:
  assumes "wf_map h m" "no_empty_bucket h m" "one_bucket_per_card h m"
  shows "distinct (map snd m)"
proof -
  have d: "distinct m" using assms(1) by (simp add: wf_map_def distinct_map)
  have "inj_on snd (set m)"
  proof (rule inj_onI)
    fix e e' assume e: "e \<in> set m" "e' \<in> set m" "snd e = snd e'"
    show "e = e'"
    proof (rule ccontr)
      assume ne: "e \<noteq> e'"
      have "fst e \<noteq> fst e'"
        using assms(1) e ne by (metis wf_map_def distinct_map inj_onD)
      then have "h ! snd e |\<inter>| h ! snd e' = {||}"
        using assms(3) e(1,2) by (simp add: one_bucket_per_card_def)
      then have "h ! snd e = {||}" using e(3) by simp
      then show False using assms(2) e(1) by (simp add: no_empty_bucket_def)
    qed
  qed
  then show ?thesis using d by (simp add: distinct_map)
qed

lemma wf_map_get: "wf_map h m \<Longrightarrow> map_get k m = Some a \<Longrightarrow> a < length h"
  using map_get_mem [of k m a] by (auto simp: wf_map_def)

lemma find_card_get:
  assumes "wf_map h m" "find_card h c m = Some (b, a)"
  shows "map_get b m = Some a \<and> a < length h \<and> c |\<in>| h ! a"
proof -
  have "(b, a) \<in> set m \<and> c |\<in>| h ! a" using find_card_Some [OF assms(2)] by simp
  then show ?thesis using assms(1) by (auto simp: wf_map_def map_get_of_mem)
qed

lemma wf_map_delete: "wf_map h m \<Longrightarrow> length h' = length h \<Longrightarrow> wf_map h' (map_delete k m)"
  by (auto simp: wf_map_def map_delete_def distinct_map_filter)

lemma distinct_addrs_delete: "distinct (map snd m) \<Longrightarrow> distinct (map snd (map_delete k m))"
  by (simp add: map_delete_def distinct_map_filter)


lemma wf_map_heap_update: "wf_map (h[a := X]) m = wf_map h m"
  by (simp add: wf_map_def)

lemma no_has_get: "\<not> map_has k m \<Longrightarrow> map_get k m = None"
  by (simp add: map_has_get)

lemma map_get_snoc:
  "map_get k (m @ [(nb, v)]) =
     (case map_get k m of None \<Rightarrow> if k = nb then Some v else None | Some a \<Rightarrow> Some a)"
  unfolding map_get_def by (simp add: map_add_def split: option.splits)

lemma update_eq:
  assumes wf: "wf_map h m" and f: "find_card h c m = Some (b, a)"
  shows "update h m c d =
    (let h1 = h[a := h ! a |-| {|c|}];
         m1 = (if h ! a |-| {|c|} = {||} then map_delete b m else m)
     in case map_get (next_bucket d b) m1 of
          None \<Rightarrow> Inr (h1 @ [{|c|}], m1 @ [(next_bucket d b, length h)])
        | Some dest \<Rightarrow> Inr (h1[dest := finsert c (h1 ! dest)], m1))"
proof -
  let ?h1 = "h[a := h ! a |-| {|c|}]"
  let ?m1 = "if h ! a |-| {|c|} = {||} then map_delete b m else m"
  let ?nb = "next_bucket d b"
  from find_card_get [OF wf f] have la: "a < length h" by simp
  have step: "update h m c d =
     (case (if \<not> map_has ?nb ?m1 then (?h1 @ [{||}], map_set ?nb (length ?h1) ?m1) else (?h1, ?m1)) of
        (h2, newMap2) \<Rightarrow>
          (case map_get ?nb newMap2 of None \<Rightarrow> Inl TypeError
           | Some dest \<Rightarrow> Inr (h2[dest := finsert c (h2 ! dest)], newMap2)))"
    using la f by (simp add: update_def Let_def)
  show ?thesis
  proof (cases "map_get ?nb ?m1")
    case None
    then have nh: "\<not> map_has ?nb ?m1" by (simp add: map_has_get)
    have "update h m c d = Inr ((?h1 @ [{||}])[length ?h1 := finsert c ((?h1 @ [{||}]) ! length ?h1)],
             map_set ?nb (length ?h1) ?m1)"
      unfolding step using nh by (simp add: map_get_set)
    also have "map_set ?nb (length ?h1) ?m1 = ?m1 @ [(?nb, length h)]"
      using map_set_absent [OF nh, of "length h"] by simp
    also have "(?h1 @ [{||}])[length ?h1 := finsert c ((?h1 @ [{||}]) ! length ?h1)] = ?h1 @ [{|c|}]"
      by (simp add: list_update_append nth_append)
    finally show ?thesis using None by (simp add: Let_def)
  next
    case (Some dest)
    then have "map_has ?nb ?m1" by (simp add: map_has_get)
    then show ?thesis unfolding step using Some by (simp add: Let_def)
  qed
qed

lemma bucket_cards_heap_update:
  assumes "wf_map h m" "distinct (map snd m)" "map_get b m = Some a"
  shows "bucket_cards (h[a := X]) m k = (if k = b then X else bucket_cards h m k)"
proof (cases "map_get k m")
  case None
  then show ?thesis using assms(3) by (auto simp: bucket_cards_def)
next
  case (Some a')
  have "a' = a \<longleftrightarrow> k = b" using map_get_inj [OF assms(2) Some, of b] assms(3) Some by auto
  moreover have "a < length h" using wf_map_get [OF assms(1,3)] .
  ultimately show ?thesis using Some assms(3) by (auto simp: bucket_cards_def)
qed

lemma bucket_cards_delete:
  "bucket_cards h (map_delete b m) k = (if k = b then {||} else bucket_cards h m k)"
  by (simp add: bucket_cards_def map_get_delete)

lemma bucket_cards_alloc:
  assumes "wf_map h m" "map_get nb m = None"
  shows "bucket_cards (h @ [X]) (m @ [(nb, length h)]) k = (if k = nb then X else bucket_cards h m k)"
proof (cases "map_get k m")
  case None
  then show ?thesis using assms(2) by (simp add: bucket_cards_def map_get_snoc)
next
  case (Some a')
  then have "a' < length h" using wf_map_get [OF assms(1)] by simp
  then show ?thesis using Some assms(2) by (auto simp: bucket_cards_def map_get_snoc nth_append)
qed

lemma wf_map_alloc:
  assumes "wf_map h m" "map_get nb m = None"
  shows "wf_map (h @ [X]) (m @ [(nb, length h)])"
  using assms by (auto simp: wf_map_def map_get_def map_of_eq_None_iff less_Suc_eq)

lemma distinct_addrs_alloc:
  assumes "wf_map h m" "distinct (map snd m)"
  shows "distinct (map snd (m @ [(nb, length h)]))"
  using assms by (auto simp: wf_map_def)

lemma map_has_snoc: "map_has k (m @ [(nb, v)]) \<longleftrightarrow> k = nb \<or> map_has k m"
  by (auto simp: map_has_def)

lemma map_has_delete: "map_has k (map_delete b m) \<longleftrightarrow> k \<noteq> b \<and> map_has k m"
  by (auto simp: map_has_def map_delete_def)

text \<open>
  What a reader of the returned map sees after an update that found the card in bucket
  \<open>b\<close>, bucket by bucket.
\<close>

lemma update_found:
  assumes wf: "wf_map h m" and da: "distinct (map snd m)" and f: "find_card h c m = Some (b, a)"
  shows "\<exists>h' m'. update h m c d = Inr (h', m') \<and> wf_map h' m' \<and> distinct (map snd m')
     \<and> (\<forall>k. bucket_cards h' m' k =
            (if k = next_bucket d b then finsert c (bucket_cards h m k |-| {|c|})
             else if k = b then bucket_cards h m k |-| {|c|} else bucket_cards h m k))
     \<and> (\<forall>k. map_has k m' \<longleftrightarrow>
            k = next_bucket d b \<or> (map_has k m \<and> \<not> (k = b \<and> h ! a |-| {|c|} = {||})))"
proof -
  let ?nb = "next_bucket d b"
  let ?h1 = "h[a := h ! a |-| {|c|}]"
  let ?m1 = "if h ! a |-| {|c|} = {||} then map_delete b m else m"
  from find_card_get [OF wf f] have ga: "map_get b m = Some a" and la: "a < length h" and ca: "c |\<in>| h ! a"
    by simp_all
  have gb: "bucket_cards h m b = h ! a" using ga by (simp add: bucket_cards_def)
  have wf1: "wf_map ?h1 ?m1" using wf by (simp add: wf_map_delete wf_map_heap_update)
  have da1: "distinct (map snd ?m1)" using da by (simp add: distinct_addrs_delete)
  have b1: "bucket_cards ?h1 ?m1 k = (if k = b then bucket_cards h m k |-| {|c|} else bucket_cards h m k)" for k
  proof -
    have b0: "bucket_cards ?h1 m k = (if k = b then h ! a |-| {|c|} else bucket_cards h m k)"
      by (rule bucket_cards_heap_update [OF wf da ga])
    show ?thesis
    proof (cases "h ! a |-| {|c|} = {||}")
      case True
      then have "bucket_cards ?h1 ?m1 k = (if k = b then {||} else bucket_cards ?h1 m k)"
        by (simp add: bucket_cards_delete)
      then show ?thesis by (metis b0 gb True)
    next
      case False
      then have "bucket_cards ?h1 ?m1 k = bucket_cards ?h1 m k"
        by simp
      then show ?thesis by (metis b0 gb)
    qed
  qed
  have h1: "map_has k ?m1 \<longleftrightarrow> map_has k m \<and> \<not> (k = b \<and> h ! a |-| {|c|} = {||})" for k
    by (auto simp: map_has_delete)
  show ?thesis
  proof (cases "map_get ?nb ?m1")
    case None
    have u: "update h m c d = Inr (?h1 @ [{|c|}], ?m1 @ [(?nb, length ?h1)])"
      using update_eq [OF wf f, of d] None by (simp add: Let_def)
    have e: "bucket_cards ?h1 ?m1 ?nb = {||}" using None by (simp add: bucket_cards_def)
    show ?thesis
      apply (rule exI [of _ "?h1 @ [{|c|}]"], rule exI [of _ "?m1 @ [(?nb, length ?h1)]"])
      apply (intro conjI allI)
      subgoal by (rule u)
      subgoal by (rule wf_map_alloc [OF wf1 None])
      subgoal by (rule distinct_addrs_alloc [OF wf1 da1])
      subgoal for k
      proof (cases "k = ?nb")
        case True
        have "bucket_cards h m ?nb |-| {|c|} = {||}"
          using e b1 [of ?nb] by (auto split: if_splits)
        then show ?thesis using True bucket_cards_alloc [OF wf1 None, of "{|c|}" k] by simp
      next
        case False
        then show ?thesis using bucket_cards_alloc [OF wf1 None, of "{|c|}" k] b1 [of k] by simp
      qed
      subgoal for k using h1 [of k] by (simp only: map_has_snoc)
      done
  next
    case (Some dest)
    have u: "update h m c d = Inr (?h1[dest := finsert c (?h1 ! dest)], ?m1)"
      using update_eq [OF wf f, of d] Some by (simp add: Let_def)
    have hs: "map_has ?nb ?m1" using Some by (simp add: map_has_get)
    have e: "bucket_cards ?h1 ?m1 ?nb = ?h1 ! dest" using Some by (simp add: bucket_cards_def)
    show ?thesis
      apply (rule exI [of _ "?h1[dest := finsert c (?h1 ! dest)]"], rule exI [of _ "?m1"])
      apply (intro conjI allI)
      subgoal by (rule u)
      subgoal using wf1 by (simp only: wf_map_heap_update)
      subgoal by (rule da1)
      subgoal for k
      proof (cases "k = ?nb")
        case True
        have "finsert c (?h1 ! dest) = finsert c (bucket_cards h m ?nb |-| {|c|})"
          using e b1 [of ?nb] by (auto split: if_splits)
        then show ?thesis
          using True bucket_cards_heap_update [OF wf1 da1 Some, of "finsert c (?h1 ! dest)" k] by simp
      next
        case False
        then show ?thesis
          using bucket_cards_heap_update [OF wf1 da1 Some, of "finsert c (?h1 ! dest)" k] b1 [of k] by simp
      qed
      subgoal for k using h1 [of k] hs h1 [of ?nb] by auto
      done
  qed
qed


lemma card_buckets_set:
  assumes "distinct (map fst m)"
  shows "set (card_buckets h m c) = {k. c |\<in>| bucket_cards h m k}"
proof (rule set_eqI)
  fix k
  have "k \<in> set (card_buckets h m c) \<longleftrightarrow> (\<exists>a. (k, a) \<in> set m \<and> c |\<in>| h ! a)"
    by (force simp: card_buckets_def)
  also have "\<dots> \<longleftrightarrow> (\<exists>a. map_get k m = Some a \<and> c |\<in>| h ! a)"
    using assms map_get_mem [of k m] map_get_of_mem [of m k] by blast
  also have "\<dots> \<longleftrightarrow> c |\<in>| bucket_cards h m k"
    by (auto simp: bucket_cards_def split: option.splits)
  finally show "k \<in> set (card_buckets h m c) \<longleftrightarrow> k \<in> {k. c |\<in>| bucket_cards h m k}" by simp
qed

lemma card_buckets_distinct: "distinct (map fst m) \<Longrightarrow> distinct (card_buckets h m c)"
  by (simp add: card_buckets_def distinct_map_filter)

lemma distinct_singleton: "distinct xs \<Longrightarrow> set xs = {x} \<Longrightarrow> xs = [x]"
  by (cases xs) (auto simp: subset_singleton_iff)

lemma one_bucket_unique:
  assumes "wf_map h m" "one_bucket_per_card h m"
    and "c |\<in>| bucket_cards h m k" "c |\<in>| bucket_cards h m k'"
  shows "k = k'"
proof (rule ccontr)
  assume ne: "k \<noteq> k'"
  from assms(3) obtain a where a: "map_get k m = Some a" "c |\<in>| h ! a"
    by (auto simp: bucket_cards_def split: option.splits)
  from assms(4) obtain a' where a': "map_get k' m = Some a'" "c |\<in>| h ! a'"
    by (auto simp: bucket_cards_def split: option.splits)
  have "h ! a |\<inter>| h ! a' = {||}"
    using assms(2) map_get_mem [OF a(1)] map_get_mem [OF a'(1)] ne
    by (force simp: one_bucket_per_card_def)
  then show False using a(2) a'(2) by auto
qed

lemma find_card_bucket:
  assumes "wf_map h m" "one_bucket_per_card h m" "c |\<in>| bucket_cards h m b"
  shows "\<exists>a. find_card h c m = Some (b, a)"
proof -
  from assms(3) obtain a where a: "map_get b m = Some a" "c |\<in>| h ! a"
    by (auto simp: bucket_cards_def split: option.splits)
  have "find_card h c m \<noteq> None"
    using map_get_mem [OF a(1)] a(2) by (auto simp: find_card_None intro!: bexI [of _ "(b, a)"])
  then obtain b' a' where f: "find_card h c m = Some (b', a')" by auto
  from find_card_get [OF assms(1) f] have "c |\<in>| bucket_cards h m b'"
    by (simp add: bucket_cards_def)
  then have "b' = b" using one_bucket_unique [OF assms(1,2) _ assms(3)] by simp
  then show ?thesis using f by simp
qed

lemma bucket_cards_entry:
  "distinct (map fst m) \<Longrightarrow> e \<in> set m \<Longrightarrow> bucket_cards h m (fst e) = h ! snd e"
  using map_get_of_mem [of m "fst e" "snd e"] by (simp add: bucket_cards_def)

lemma map_has_entry: "e \<in> set m \<Longrightarrow> map_has (fst e) m"
  by (simp add: map_has_def)

lemma update_found_invariant:
  assumes wf: "wf_map h m" and ne: "no_empty_bucket h m" and ob: "one_bucket_per_card h m"
    and f: "find_card h c m = Some (b, a)"
  shows "\<exists>h' m'. update h m c d = Inr (h', m') \<and> wf_map h' m' \<and> no_empty_bucket h' m'
           \<and> card_buckets h' m' c = [next_bucket d b]"
proof -
  let ?nb = "next_bucket d b"
  from find_card_get [OF wf f] have ga: "map_get b m = Some a" and ca: "c |\<in>| h ! a"
    by simp_all
  have cb: "c |\<in>| bucket_cards h m b" using ga ca by (simp add: bucket_cards_def)
  have gb: "bucket_cards h m b = h ! a" using ga by (simp add: bucket_cards_def)
  from update_found [OF wf invariant_distinct_addrs [OF wf ne ob] f, of d]
  obtain h' m' where u: "update h m c d = Inr (h', m')" and wf': "wf_map h' m'"
    and bc: "\<And>k. bucket_cards h' m' k =
            (if k = ?nb then finsert c (bucket_cards h m k |-| {|c|})
             else if k = b then bucket_cards h m k |-| {|c|} else bucket_cards h m k)"
    and mh: "\<And>k. map_has k m' \<longleftrightarrow>
            k = ?nb \<or> (map_has k m \<and> \<not> (k = b \<and> h ! a |-| {|c|} = {||}))"
    by blast
  have dk': "distinct (map fst m')" using wf' by (simp add: wf_map_def)
  have dk: "distinct (map fst m)" using wf by (simp add: wf_map_def)
  have "c |\<in>| bucket_cards h' m' k \<longleftrightarrow> k = ?nb" for k
  proof (cases "k = ?nb")
    case True
    then show ?thesis using bc [of k] by simp
  next
    case False
    have "c |\<notin>| bucket_cards h m k" if "k \<noteq> b"
      using one_bucket_unique [OF wf ob _ cb, of k] that by blast
    then show ?thesis using False bc [of k] by auto
  qed
  then have "set (card_buckets h' m' c) = {?nb}"
    using card_buckets_set [OF dk', of h' c] by simp
  moreover have "distinct (card_buckets h' m' c)"
    using dk' by (rule card_buckets_distinct)
  ultimately have one: "card_buckets h' m' c = [?nb]" by (rule distinct_singleton [rotated])
  have "h' ! snd e \<noteq> {||}" if e: "e \<in> set m'" for e
  proof -
    have v: "bucket_cards h' m' (fst e) = h' ! snd e" using bucket_cards_entry [OF dk' e] .
    have hk: "map_has (fst e) m'" using e by (rule map_has_entry)
    show ?thesis
    proof (cases "fst e = ?nb")
      case True
      then show ?thesis using v bc [of "fst e"] by auto
    next
      case nnb: False
      then have hm: "map_has (fst e) m" and nd: "\<not> (fst e = b \<and> h ! a |-| {|c|} = {||})"
        using hk mh [of "fst e"] by auto
      show ?thesis
      proof (cases "fst e = b")
        case True
        then have "h' ! snd e = h ! a |-| {|c|}" using v bc [of "fst e"] nnb gb by simp
        then show ?thesis using nd True by simp
      next
        case False
        from hm obtain e0 where e0: "e0 \<in> set m" "fst e0 = fst e" by (auto simp: map_has_def)
        have "h' ! snd e = bucket_cards h m (fst e)" using v bc [of "fst e"] nnb False by simp
        also have "\<dots> = h ! snd e0" using bucket_cards_entry [OF dk e0(1)] e0(2) by simp
        finally show ?thesis using ne e0(1) by (simp add: no_empty_bucket_def)
      qed
    qed
  qed
  then have "no_empty_bucket h' m'" by (simp add: no_empty_bucket_def)
  then show ?thesis using u wf' one by blast
qed

section \<open>Properties of update\<close>

text \<open>
  Claim C1 says that \<^verbatim>\<open>update\<close> leaves the sets inside the caller's mapping as they
  were. The copy \<^verbatim>\<open>new Map(buckets)\<close> shares the set objects, and \<^verbatim>\<open>update\<close> deletes
  the card from the set it found it in: for the mapping \<open>{3: {card 1}}\<close> and the answer
  Wrong, the call returns \<open>{0: {card 1}}\<close>, and the caller's mapping, which held card 1
  in bucket 3 before the call, holds an empty set in bucket 3 after it.
\<close>

theorem update_writes_callers_set:
  "update [{|1::nat|}] [(3, 0)] 1 Wrong = Inr ([{||}, {|1|}], [(0, 1)])
   \<and> bucket_cards [{|1::nat|}] [(3, 0)] 3 = {|1|}
   \<and> bucket_cards [{||}, {|1::nat|}] [(3, 0)] 3 = {||}"
  by (simp add: update_def next_bucket_def map_has_def map_get_def map_delete_def bucket_cards_def)

text \<open>
  Claim C2: when the mapping satisfies its invariant and card \<open>c\<close> is in bucket \<open>b\<close>,
  \<^verbatim>\<open>update\<close> succeeds, and in the mapping it returns the buckets that hold \<open>c\<close> are
  exactly one, the destination: bucket 0 for Wrong, bucket \<open>b + 1\<close> for Easy unless
  \<open>b\<close> is the retired bucket 5, which stays 5, and bucket \<open>max 0 (b - 1)\<close> for Hard. So
  \<open>c\<close> has left bucket \<open>b\<close> whenever the destination is another bucket.
\<close>

theorem update_moves_card:
  assumes "wf_map h m" "no_empty_bucket h m" "one_bucket_per_card h m"
    and "c |\<in>| bucket_cards h m b"
  shows "\<exists>h' m'. update h m c d = Inr (h', m') \<and>
           card_buckets h' m' c =
             [case d of Wrong \<Rightarrow> 0
                      | Easy \<Rightarrow> (if b = 5 then 5 else b + 1)
                      | Hard \<Rightarrow> max 0 (b - 1)]"
proof -
  have nb: "next_bucket d b =
      (case d of Wrong \<Rightarrow> 0 | Easy \<Rightarrow> (if b = 5 then 5 else b + 1) | Hard \<Rightarrow> max 0 (b - 1))"
    by (simp add: next_bucket_def split: AnswerDifficulty.splits)
  from find_card_bucket [OF assms(1,3,4)] obtain a where f: "find_card h c m = Some (b, a)" ..
  from update_found_invariant [OF assms(1,2,3) f, of d] show ?thesis
    unfolding nb by blast
qed

theorem update_moves_card_witness:
  "wf_map [{|1::nat, 2|}, {|3|}] [(3, 0), (4, 1)]
   \<and> no_empty_bucket [{|1::nat, 2|}, {|3|}] [(3, 0), (4, 1)]
   \<and> one_bucket_per_card [{|1::nat, 2|}, {|3|}] [(3, 0), (4, 1)]
   \<and> 1 |\<in>| bucket_cards [{|1::nat, 2|}, {|3|}] [(3, 0), (4, 1)] 3
   \<and> (\<exists>h' m'. update [{|1::nat, 2|}, {|3|}] [(3, 0), (4, 1)] 1 Easy = Inr (h', m')
         \<and> card_buckets h' m' 1 = [4])"
proof -
  have 1: "wf_map [{|1::nat, 2|}, {|3|}] [(3, 0), (4, 1)]" by (simp add: wf_map_def)
  have 2: "no_empty_bucket [{|1::nat, 2|}, {|3|}] [(3, 0), (4, 1)]"
    by (simp add: no_empty_bucket_def)
  have 3: "one_bucket_per_card [{|1::nat, 2|}, {|3|}] [(3, 0), (4, 1)]"
    by (simp add: one_bucket_per_card_def)
  have 4: "1 |\<in>| bucket_cards [{|1::nat, 2|}, {|3|}] [(3, 0), (4, 1)] 3"
    by (simp add: bucket_cards_def map_get_def)
  show ?thesis using 1 2 3 4 update_moves_card [OF 1 2 3 4, of Easy] by simp
qed

text \<open>
  Claim C3 says that after any update of a mapping that satisfies the invariant no bucket
  set of the result is empty and the given card is in exactly one bucket. The second part
  fails for a card that is in no bucket of the mapping: the call is then a no-op, and the
  card is in no bucket of the result either.
\<close>

theorem update_unbucketed_in_no_bucket:
  "wf_map [{|1::nat|}] [(0, 0)] \<and> no_empty_bucket [{|1::nat|}] [(0, 0)]
   \<and> one_bucket_per_card [{|1::nat|}] [(0, 0)]
   \<and> update [{|1::nat|}] [(0, 0)] 2 Hard = Inr ([{|1|}], [(0, 0)])
   \<and> length (card_buckets [{|1::nat|}] [(0, 0)] 2) \<noteq> 1"
  by (simp add: wf_map_def no_empty_bucket_def one_bucket_per_card_def update_def card_buckets_def)

text \<open>
  Claim C3 as amended: after any update of a mapping that satisfies the invariant,
  no bucket set of the result is empty, and the given card is in exactly one bucket of the
  result if it was in a bucket of the mapping, and in none otherwise.
\<close>

theorem update_keeps_invariant:
  assumes "wf_map h m" "no_empty_bucket h m" "one_bucket_per_card h m"
  shows "\<exists>h' m'. update h m c d = Inr (h', m') \<and> no_empty_bucket h' m'
           \<and> length (card_buckets h' m' c) = (if card_buckets h m c = [] then 0 else 1)"
proof (cases "find_card h c m")
  case None
  then have "card_buckets h m c = []"
    by (auto simp: find_card_None card_buckets_def filter_empty_conv)
  moreover have "update h m c d = Inr (h, m)" using None by (simp add: update_def)
  ultimately show ?thesis using assms(2) by simp
next
  case (Some e)
  then have f: "find_card h c m = Some (fst e, snd e)" by simp
  have "card_buckets h m c \<noteq> []"
    using find_card_Some [OF Some] by (auto simp: card_buckets_def filter_empty_conv)
  then show ?thesis using update_found_invariant [OF assms f, of d] by auto
qed

theorem update_keeps_invariant_witness:
  "wf_map [{|1::nat|}, {|2|}] [(5, 0), (4, 1)] \<and> no_empty_bucket [{|1::nat|}, {|2|}] [(5, 0), (4, 1)]
   \<and> one_bucket_per_card [{|1::nat|}, {|2|}] [(5, 0), (4, 1)]
   \<and> (\<exists>h' m'. update [{|1::nat|}, {|2|}] [(5, 0), (4, 1)] 1 Hard = Inr (h', m')
         \<and> no_empty_bucket h' m' \<and> length (card_buckets h' m' 1) = 1)"
proof -
  have 1: "wf_map [{|1::nat|}, {|2|}] [(5, 0), (4, 1)]" by (simp add: wf_map_def)
  have 2: "no_empty_bucket [{|1::nat|}, {|2|}] [(5, 0), (4, 1)]"
    by (simp add: no_empty_bucket_def)
  have 3: "one_bucket_per_card [{|1::nat|}, {|2|}] [(5, 0), (4, 1)]"
    by (simp add: one_bucket_per_card_def)
  show ?thesis using 1 2 3 update_keeps_invariant [OF 1 2 3, of 1 Hard]
    by (simp add: card_buckets_def)
qed

text \<open>
  Claim C7: a card that no bucket of the mapping contains is a tolerated no-op: whatever
  the difficulty, \<^verbatim>\<open>update\<close> raises no error and returns a mapping with the entries of
  the given one, in a store that it has not written to.
\<close>

theorem update_unbucketed_noop:
  "card_buckets h m c = [] \<Longrightarrow> update h m c d = Inr (h, m)"
proof -
  assume "card_buckets h m c = []"
  then have "find_card h c m = None"
    by (auto simp: find_card_None card_buckets_def filter_empty_conv)
  then show ?thesis by (simp add: update_def)
qed

theorem update_unbucketed_noop_witness:
  "card_buckets [{|1::nat|}] [(0, 0)] 2 = []
   \<and> update [{|1::nat|}] [(0, 0)] 2 Easy = Inr ([{|1|}], [(0, 0)])"
proof -
  have 1: "card_buckets [{|1::nat|}] [(0, 0)] 2 = []" by (simp add: card_buckets_def)
  show ?thesis using 1 update_unbucketed_noop [OF 1, of Easy] by simp
qed

text \<open>
  Claim C10: when the mapping satisfies its invariant, every card other than the practiced
  one is, after the update, in exactly the buckets it was in before: for each bucket
  number, it is in that bucket of the returned mapping if and only if it was in that
  bucket of the given one.
\<close>

theorem update_other_cards_stay:
  assumes "wf_map h m" "no_empty_bucket h m" "one_bucket_per_card h m" "c' \<noteq> c"
  shows "\<exists>h' m'. update h m c d = Inr (h', m') \<and>
           (\<forall>k. c' |\<in>| bucket_cards h' m' k \<longleftrightarrow> c' |\<in>| bucket_cards h m k)"
proof (cases "find_card h c m")
  case None
  then have "update h m c d = Inr (h, m)" by (simp add: update_def)
  then show ?thesis by simp
next
  case (Some e)
  then have f: "find_card h c m = Some (fst e, snd e)" by simp
  from update_found [OF assms(1) invariant_distinct_addrs [OF assms(1,2,3)] f, of d]
  obtain h' m' where u: "update h m c d = Inr (h', m')"
    and bc: "\<And>k. bucket_cards h' m' k =
            (if k = next_bucket d (fst e) then finsert c (bucket_cards h m k |-| {|c|})
             else if k = fst e then bucket_cards h m k |-| {|c|} else bucket_cards h m k)"
    by blast
  have "c' |\<in>| bucket_cards h' m' k \<longleftrightarrow> c' |\<in>| bucket_cards h m k" for k
    using bc [of k] assms(4) by auto
  then show ?thesis using u by blast
qed

theorem update_other_cards_stay_witness:
  "wf_map [{|1::nat, 2|}] [(0, 0)] \<and> no_empty_bucket [{|1::nat, 2|}] [(0, 0)]
   \<and> one_bucket_per_card [{|1::nat, 2|}] [(0, 0)] \<and> (2::nat) \<noteq> 1
   \<and> (\<exists>h' m'. update [{|1::nat, 2|}] [(0, 0)] 1 Easy = Inr (h', m')
         \<and> (\<forall>k. 2 |\<in>| bucket_cards h' m' k \<longleftrightarrow> 2 |\<in>| bucket_cards [{|1::nat, 2|}] [(0, 0)] k))"
proof -
  have 1: "wf_map [{|1::nat, 2|}] [(0, 0)]" by (simp add: wf_map_def)
  have 2: "no_empty_bucket [{|1::nat, 2|}] [(0, 0)]" by (simp add: no_empty_bucket_def)
  have 3: "one_bucket_per_card [{|1::nat, 2|}] [(0, 0)]" by (simp add: one_bucket_per_card_def)
  have 4: "(2::nat) \<noteq> 1" by simp
  show ?thesis using 1 2 3 4 update_other_cards_stay [OF 1 2 3 4, of Easy] by simp
qed

section \<open>Properties of toBucketSets\<close>

text \<open>
  The loop appends to the store one set per index, the cards of that bucket, and pushes
  the new addresses in order.
\<close>

lemma math_max_Max: "xs \<noteq> [] \<Longrightarrow> math_max xs = Some (Max (set xs))"
proof (induction xs)
  case Nil
  then show ?case by simp
next
  case (Cons x xs)
  show ?case
  proof (cases "xs = []")
    case True
    then show ?thesis by simp
  next
    case False
    then show ?thesis using Cons.IH by (simp add: max.commute)
  qed
qed

lemma bucket_cards_extend:
  assumes "wf_map h m"
  shows "(if map_has i m then (case map_get i m of None \<Rightarrow> {||} | Some a \<Rightarrow> (h @ ext) ! a) else {||})
           = bucket_cards h m i"
proof (cases "map_get i m")
  case None
  then show ?thesis by (simp add: bucket_cards_def)
next
  case (Some a)
  then have "a < length h" using wf_map_get [OF assms] by simp
  then show ?thesis using Some by (simp add: bucket_cards_def nth_append map_has_get)
qed

lemma toBucketSets_loop_eq:
  assumes "wf_map h m"
  shows "toBucketSets_loop m idx (h @ ext, res) =
           (h @ ext @ map (bucket_cards h m) idx,
            res @ [length h + length ext ..< length h + length ext + length idx])"
proof (induction idx arbitrary: ext res)
  case Nil
  then show ?case by simp
next
  case (Cons i idx)
  have "toBucketSets_loop m (i # idx) (h @ ext, res) =
          toBucketSets_loop m idx (h @ (ext @ [bucket_cards h m i]), res @ [length h + length ext])"
    using bucket_cards_extend [OF assms, of i ext] by simp
  also have "\<dots> = (h @ (ext @ [bucket_cards h m i]) @ map (bucket_cards h m) idx,
        (res @ [length h + length ext]) @
          [length h + length (ext @ [bucket_cards h m i]) ..<
             length h + length (ext @ [bucket_cards h m i]) + length idx])"
    by (rule Cons.IH)
  also have "\<dots> = (h @ ext @ map (bucket_cards h m) (i # idx),
            res @ [length h + length ext ..< length h + length ext + length (i # idx)])"
    using upt_conv_Cons [of "length h + length ext" "length h + length ext + Suc (length idx)"]
    by simp
  finally show ?case .
qed

lemma toBucketSets_eq:
  assumes "wf_map h m" "m \<noteq> []"
  shows "toBucketSets h m =
           (h @ map (bucket_cards h m) [0..Max (fst ` set m)],
            [length h ..< length h + length [0..Max (fst ` set m)]])"
  using assms(2) math_max_Max [of "map fst m"] toBucketSets_loop_eq [OF assms(1), of _ "[]" "[]"]
  by (simp add: toBucketSets_def)

lemma sum_bucket_sizes:
  assumes "distinct (map fst m)" "nonneg_buckets m" "m \<noteq> []"
  shows "(\<Sum>i\<leftarrow>[0..Max (fst ` set m)]. fcard (bucket_cards h m i)) = (\<Sum>e\<leftarrow>m. fcard (h ! snd e))"
proof -
  let ?M = "Max (fst ` set m)"
  let ?F = "\<lambda>i. fcard (bucket_cards h m i)"
  have sub: "fst ` set m \<subseteq> {0..?M}"
  proof
    fix k assume k: "k \<in> fst ` set m"
    then have "0 \<le> k" using assms(2) by (auto simp: nonneg_buckets_def)
    moreover have "k \<le> ?M" using k by (simp add: Max_ge)
    ultimately show "k \<in> {0..?M}" by simp
  qed
  have zero: "?F i = 0" if "i \<notin> fst ` set m" for i
  proof -
    have "map_get i m = None" using that by (simp add: map_get_def map_of_eq_None_iff)
    then show ?thesis by (simp add: bucket_cards_def)
  qed
  have "(\<Sum>i\<leftarrow>[0..?M]. ?F i) = sum ?F (set [0..?M])"
    by (rule sum_list_distinct_conv_sum_set) simp
  also have "\<dots> = sum ?F {0..?M}" by simp
  also have "\<dots> = sum ?F (fst ` set m)"
    using sub zero by (intro sum.mono_neutral_right) auto
  also have "\<dots> = sum ?F (set (map fst m))" by simp
  also have "\<dots> = (\<Sum>k\<leftarrow>map fst m. ?F k)"
    using assms(1) by (rule sum_list_distinct_conv_sum_set [symmetric])
  also have "\<dots> = (\<Sum>e\<leftarrow>m. ?F (fst e))" by (simp add: comp_def)
  also have "\<dots> = (\<Sum>e\<leftarrow>m. fcard (h ! snd e))"
    using bucket_cards_entry [OF assms(1), of _ h]
    by (intro arg_cong [where f = sum_list] map_cong) simp_all
  finally show ?thesis .
qed

text \<open>
  Claim C6: \<^verbatim>\<open>toBucketSets\<close> of an empty mapping is the empty array. Otherwise the
  array has (largest bucket number) + 1 elements; element \<open>i\<close> holds the cards of bucket
  \<open>i\<close> of the mapping, so an empty set where the mapping has no bucket \<open>i\<close>; and the sets
  of the array are new objects: pairwise distinct, none of them a set of the mapping, whose
  sets are left as they were. The mapping \<open>{2: {card 7}}\<close> gives \<open>[{}, {}, {card 7}]\<close>.
\<close>

theorem toBucketSets_dense:
  assumes "wf_map h m" "nonneg_buckets m"
  shows "case toBucketSets h m of (h', arr) \<Rightarrow>
      (m = [] \<longrightarrow> arr = [])
    \<and> (m \<noteq> [] \<longrightarrow> int (length arr) = Max (fst ` set m) + 1)
    \<and> (\<forall>i < length arr. h' ! (arr ! i) = bucket_cards h m (int i))
    \<and> (\<forall>i < length arr. \<not> map_has (int i) m \<longrightarrow> h' ! (arr ! i) = {||})
    \<and> set arr \<inter> snd ` set m = {} \<and> distinct arr
    \<and> (\<forall>a < length h. h' ! a = h ! a)"
proof (cases "m = []")
  case True
  then show ?thesis by (simp add: toBucketSets_def)
next
  case False
  let ?M = "Max (fst ` set m)"
  let ?n = "length [0..?M]"
  let ?h' = "h @ map (bucket_cards h m) [0..?M]"
  let ?arr = "[length h ..< length h + ?n]"
  have t: "toBucketSets h m = (?h', ?arr)" by (rule toBucketSets_eq [OF assms(1) False])
  from False obtain e where e: "e \<in> set m" by (cases m) auto
  then have "0 \<le> fst e" using assms(2) by (simp add: nonneg_buckets_def)
  moreover have "fst e \<le> ?M" using e by (simp add: Max_ge)
  ultimately have "0 \<le> ?M" by simp
  then have len: "int ?n = ?M + 1" by simp
  have cont: "?h' ! (?arr ! i) = bucket_cards h m (int i)" if "i < ?n" for i
    using that by (simp add: nth_append nth_upto)
  have absent: "bucket_cards h m k = {||}" if "\<not> map_has k m" for k
    using that by (simp add: bucket_cards_def map_has_get)
  have fresh: "set ?arr \<inter> snd ` set m = {}"
    using assms(1) by (fastforce simp: wf_map_def)
  have frame: "\<forall>a < length h. ?h' ! a = h ! a" by (simp add: nth_append)
  show ?thesis unfolding t using False len cont absent fresh frame by simp
qed

theorem toBucketSets_dense_witness:
  "wf_map [{|7::nat|}] [(2, 0)] \<and> nonneg_buckets [(2, 0)]
   \<and> toBucketSets [{|7::nat|}] [(2, 0)] = ([{|7|}, {||}, {||}, {|7|}], [1, 2, 3])
   \<and> (case toBucketSets [{|7::nat|}] [(2, 0)] of (h', arr) \<Rightarrow>
        map (\<lambda>a. h' ! a) arr = [{||}, {||}, {|7|}] \<and> int (length arr) = 2 + 1
        \<and> set arr \<inter> snd ` set [(2::int, 0::nat)] = {})"
proof -
  have 1: "wf_map [{|7::nat|}] [(2, 0)]" by (simp add: wf_map_def)
  have 2: "nonneg_buckets [(2, 0)]" by (simp add: nonneg_buckets_def)
  have 3: "toBucketSets [{|7::nat|}] [(2, 0)] = ([{|7|}, {||}, {||}, {|7|}], [1, 2, 3])"
    by code_simp
  show ?thesis using 1 2 3 toBucketSets_dense [OF 1 2] by simp
qed

text \<open>
  Claim C9: the sizes of the sets of the array that \<^verbatim>\<open>toBucketSets\<close> returns add up
  to the sum of the sizes of the sets of the mapping.
\<close>

theorem toBucketSets_preserves_count:
  assumes "wf_map h m" "nonneg_buckets m"
  shows "case toBucketSets h m of (h', arr) \<Rightarrow>
           (\<Sum>a\<leftarrow>arr. fcard (h' ! a)) = (\<Sum>e\<leftarrow>m. fcard (h ! snd e))"
proof (cases "m = []")
  case True
  then show ?thesis by (simp add: toBucketSets_def)
next
  case False
  let ?M = "Max (fst ` set m)"
  let ?n = "length [0..?M]"
  let ?h' = "h @ map (bucket_cards h m) [0..?M]"
  let ?arr = "[length h ..< length h + ?n]"
  have t: "toBucketSets h m = (?h', ?arr)" by (rule toBucketSets_eq [OF assms(1) False])
  have eq: "map (\<lambda>a. ?h' ! a) ?arr = map (bucket_cards h m) [0..?M]"
    by (intro nth_equalityI) (simp_all add: nth_append)
  have "(\<Sum>a\<leftarrow>?arr. fcard (?h' ! a)) = sum_list (map fcard (map (\<lambda>a. ?h' ! a) ?arr))"
    by (simp only: map_map comp_def)
  also have "\<dots> = sum_list (map fcard (map (bucket_cards h m) [0..?M]))"
    by (simp only: eq)
  also have "\<dots> = (\<Sum>i\<leftarrow>[0..?M]. fcard (bucket_cards h m i))"
    by (simp only: map_map comp_def)
  also have "\<dots> = (\<Sum>e\<leftarrow>m. fcard (h ! snd e))"
    using assms False by (intro sum_bucket_sizes) (simp_all add: wf_map_def)
  finally show ?thesis unfolding t by simp
qed

theorem toBucketSets_preserves_count_witness:
  "wf_map [{|7::nat, 8|}, {|9|}] [(2, 0), (0, 1)] \<and> nonneg_buckets [(2, 0), (0, 1)]
   \<and> (case toBucketSets [{|7::nat, 8|}, {|9|}] [(2, 0), (0, 1)] of (h', arr) \<Rightarrow>
         (\<Sum>a\<leftarrow>arr. fcard (h' ! a)) = 3)
   \<and> (\<Sum>e\<leftarrow>[(2::int, 0::nat), (0, 1)]. fcard ([{|7::nat, 8|}, {|9|}] ! snd e)) = 3"
proof -
  have 1: "wf_map [{|7::nat, 8|}, {|9|}] [(2, 0), (0, 1)]" by (simp add: wf_map_def)
  have 2: "nonneg_buckets [(2, 0), (0, 1)]" by (simp add: nonneg_buckets_def)
  have 3: "(\<Sum>e\<leftarrow>[(2::int, 0::nat), (0, 1)]. fcard ([{|7::nat, 8|}, {|9|}] ! snd e)) = 3"
    by code_simp
  show ?thesis using 1 2 3 toBucketSets_preserves_count [OF 1 2]
    by (auto split: prod.splits)
qed

section \<open>Properties of practice\<close>

text \<open>
  For a day that is not negative, the remainder of JavaScript and \<open>mod\<close> agree on
  whether a bucket is due.
\<close>

lemma smod_zero_iff: "0 \<le> day \<Longrightarrow> day smod (2::int) ^ i = 0 \<longleftrightarrow> day mod 2 ^ i = 0"
  by (auto simp: signed_modulo_int_def sgn_if)

lemma practice_loop_result:
  assumes "\<forall>i \<in> set idx. i < length bs" "\<forall>a \<in> set bs. a < r" "r < length hh"
  shows "length (practice_loop bs day r idx hh) = length hh
     \<and> (\<forall>a. a \<noteq> r \<longrightarrow> practice_loop bs day r idx hh ! a = hh ! a)
     \<and> (\<forall>c. c |\<in>| practice_loop bs day r idx hh ! r \<longleftrightarrow>
            c |\<in>| hh ! r \<or> (\<exists>i \<in> set idx. i \<noteq> 5 \<and> day smod 2 ^ i = 0 \<and> c |\<in>| hh ! (bs ! i)))"
  using assms
proof (induction idx arbitrary: hh)
  case Nil
  then show ?case by simp
next
  case (Cons j idx)
  let ?hh1 = "if j = retiredBucket then hh
              else if day smod (2::int) ^ j = 0 then hh[r := hh ! r |\<union>| hh ! (bs ! j)] else hh"
  have step: "practice_loop bs day r (j # idx) hh = practice_loop bs day r idx ?hh1"
    by (simp add: Let_def)
  have len: "length ?hh1 = length hh" by simp
  have ne: "bs ! i \<noteq> r" if "i < length bs" for i
    using Cons.prems(2) that nth_mem [of i bs] by fastforce
  have same: "?hh1 ! (bs ! i) = hh ! (bs ! i)" if "i < length bs" for i
    using ne [OF that] by simp
  have other: "?hh1 ! a = hh ! a" if "a \<noteq> r" for a using that by simp
  have atr: "c |\<in>| ?hh1 ! r \<longleftrightarrow> c |\<in>| hh ! r \<or> (j \<noteq> 5 \<and> day smod 2 ^ j = 0 \<and> c |\<in>| hh ! (bs ! j))" for c
    using Cons.prems(3) by (simp add: retiredBucket_def)
  have IH: "length (practice_loop bs day r idx ?hh1) = length ?hh1
     \<and> (\<forall>a. a \<noteq> r \<longrightarrow> practice_loop bs day r idx ?hh1 ! a = ?hh1 ! a)
     \<and> (\<forall>c. c |\<in>| practice_loop bs day r idx ?hh1 ! r \<longleftrightarrow>
            c |\<in>| ?hh1 ! r \<or> (\<exists>i \<in> set idx. i \<noteq> 5 \<and> day smod 2 ^ i = 0 \<and> c |\<in>| ?hh1 ! (bs ! i)))"
    using Cons.prems len by (intro Cons.IH) simp_all
  have ex: "(\<exists>i \<in> set idx. i \<noteq> 5 \<and> day smod 2 ^ i = 0 \<and> c |\<in>| ?hh1 ! (bs ! i))
        \<longleftrightarrow> (\<exists>i \<in> set idx. i \<noteq> 5 \<and> day smod 2 ^ i = 0 \<and> c |\<in>| hh ! (bs ! i))" for c
    using same Cons.prems(1) by (metis list.set_intros(2))
  show ?case
    unfolding step using IH len other atr ex by (simp only: set_simps) blast
qed

text \<open>
  Claim C4: for a day \<open>day \<ge> 0\<close>, the set that \<^verbatim>\<open>practice\<close> returns holds exactly the
  cards of the buckets \<open>i\<close> of the array with \<open>i \<noteq> 5\<close> and \<open>day mod 2 ^ i = 0\<close>, and the
  sets of the array are left as they were. In particular on day 0 every card of bucket 0
  is in the result, and a card that is in no bucket other than the retired bucket 5 is
  never in it. The loop runs over the indices of the array only, so a short or empty
  array raises nothing: \<^verbatim>\<open>practice\<close> has no error result.
\<close>

theorem practice_due_buckets:
  assumes "0 \<le> day" "wf_array h bs"
  shows "case practice h bs day of (h', r) \<Rightarrow>
      (\<forall>c. c |\<in>| h' ! r \<longleftrightarrow> (\<exists>i < length bs. i \<noteq> 5 \<and> day mod 2 ^ i = 0 \<and> c |\<in>| h ! (bs ! i)))
    \<and> (\<forall>a < length h. h' ! a = h ! a)
    \<and> (day = 0 \<longrightarrow> bs \<noteq> [] \<longrightarrow> h ! (bs ! 0) |\<subseteq>| h' ! r)
    \<and> (\<forall>c. (\<forall>i < length bs. i \<noteq> 5 \<longrightarrow> c |\<notin>| h ! (bs ! i)) \<longrightarrow> c |\<notin>| h' ! r)"
proof -
  let ?r = "length h"
  let ?h0 = "h @ [{||}]"
  let ?h' = "practice_loop bs day ?r [0..<length bs] ?h0"
  have p: "practice h bs day = (?h', ?r)" by (simp add: practice_def Let_def)
  have va: "\<forall>a \<in> set bs. a < ?r" using assms(2) by (simp add: wf_array_def)
  have rd: "?h0 ! (bs ! i) = h ! (bs ! i)" if "i < length bs" for i
    using va that by (simp add: nth_append)
  from practice_loop_result [of "[0..<length bs]" bs ?r ?h0 day] va
  have fr: "\<forall>a. a \<noteq> ?r \<longrightarrow> ?h' ! a = ?h0 ! a"
    and un: "\<forall>c. c |\<in>| ?h' ! ?r \<longleftrightarrow>
            c |\<in>| ?h0 ! ?r \<or> (\<exists>i \<in> set [0..<length bs]. i \<noteq> 5 \<and> day smod 2 ^ i = 0 \<and> c |\<in>| ?h0 ! (bs ! i))"
    by simp_all
  have mem: "c |\<in>| ?h' ! ?r \<longleftrightarrow> (\<exists>i < length bs. i \<noteq> 5 \<and> day mod 2 ^ i = 0 \<and> c |\<in>| h ! (bs ! i))" for c
    using un rd smod_zero_iff [OF assms(1)] by auto
  have frame: "\<forall>a < length h. ?h' ! a = h ! a" using fr by (simp add: nth_append)
  have zero: "h ! (bs ! 0) |\<subseteq>| ?h' ! ?r" if "day = 0" "bs \<noteq> []"
  proof
    fix c assume "c |\<in>| h ! (bs ! 0)"
    then have "\<exists>i < length bs. i \<noteq> 5 \<and> day mod 2 ^ i = 0 \<and> c |\<in>| h ! (bs ! i)"
      using that by (intro exI [of _ 0]) simp
    then show "c |\<in>| ?h' ! ?r" by (simp only: mem)
  qed
  have retired: "\<forall>c. (\<forall>i < length bs. i \<noteq> 5 \<longrightarrow> c |\<notin>| h ! (bs ! i)) \<longrightarrow> c |\<notin>| ?h' ! ?r"
    using mem by blast
  show ?thesis unfolding p using mem frame zero retired by simp
qed

theorem practice_due_buckets_witness:
  "(0::int) \<le> 0
   \<and> wf_array [{|1::nat|}, {|2|}, {|3|}, {|4|}, {|5|}, {|6|}, {|7|}] [0, 1, 2, 3, 4, 5, 6]
   \<and> (case practice [{|1::nat|}, {|2|}, {|3|}, {|4|}, {|5|}, {|6|}, {|7|}] [0, 1, 2, 3, 4, 5, 6] 0 of
        (h', r) \<Rightarrow> {|1|} |\<subseteq>| h' ! r \<and> 6 |\<notin>| h' ! r)
   \<and> practice [{|1::nat|}, {|2|}, {|3|}, {|4|}, {|5|}, {|6|}, {|7|}] [0, 1, 2, 3, 4, 5, 6] 4
       = ([{|1|}, {|2|}, {|3|}, {|4|}, {|5|}, {|6|}, {|7|}, {|1, 2, 3|}], 7)
   \<and> practice [{|1::nat|}] [0] 1 = ([{|1|}, {|1|}], 1)
   \<and> practice ([] :: nat heap) [] 3 = ([{||}], 0)"
proof -
  let ?h = "[{|1::nat|}, {|2|}, {|3|}, {|4|}, {|5|}, {|6|}, {|7|}]"
  let ?bs = "[0, 1, 2, 3, 4, 5, 6 :: nat]"
  have 1: "(0::int) \<le> 0" by simp
  have 2: "wf_array ?h ?bs" by (simp add: wf_array_def)
  have 3: "practice ?h ?bs 4 = ([{|1|}, {|2|}, {|3|}, {|4|}, {|5|}, {|6|}, {|7|}, {|1, 2, 3|}], 7)"
    by code_simp
  have 4: "practice [{|1::nat|}] [0] 1 = ([{|1|}, {|1|}], 1)" by code_simp
  have 5: "practice ([] :: nat heap) [] 3 = ([{||}], 0)" by code_simp
  have 6: "\<forall>i<7. i \<noteq> 5 \<longrightarrow> (6::nat) |\<notin>| ?h ! (?bs ! i)"
    by (simp add: less_Suc_eq numeral_nat)
  show ?thesis using 1 2 3 4 5 6 practice_due_buckets [OF 1 2]
    by (auto split: prod.splits)
qed

section \<open>Properties of getHint\<close>

text \<open>
  Claim C8: for a card with the tag \<^verbatim>\<open>language\<close>, the hint is the back text with
  its white space removed, the first remaining code unit kept and every other one replaced
  by the underscore (code unit 0x5F); it is empty when the back text is empty or all white
  space. For a card without that tag, the hint is the stored hint field. A language card
  with back text \<^verbatim>\<open>test\<close> gives \<^verbatim>\<open>t___\<close>.
\<close>

theorem getHint_masks_back:
  "(js ''language'' \<in> set (tags c) \<longrightarrow>
      getHint c = (case filter (\<lambda>u. \<not> is_space u) (back' c) of
                     [] \<Rightarrow> []
                   | x # xs \<Rightarrow> x # map (\<lambda>_. 0x5F) xs))
   \<and> (js ''language'' \<in> set (tags c) \<longrightarrow> (\<forall>u \<in> set (back' c). is_space u) \<longrightarrow> getHint c = [])
   \<and> (js ''language'' \<notin> set (tags c) \<longrightarrow> getHint c = hint c)"
proof -
  have "[xs ! 0] @ replicate (length xs - 1) (0x5F :: 16 word)
          = (case xs of [] \<Rightarrow> [] | x # ys \<Rightarrow> x # map (\<lambda>_. 0x5F) ys)"
    if "xs \<noteq> []" for xs :: "16 word list"
    using that by (cases xs) (simp_all add: map_replicate_const)
  moreover have "filter (\<lambda>u. \<not> is_space u) (back' c) = []" if "\<forall>u \<in> set (back' c). is_space u"
    using that by (simp add: filter_empty_conv)
  ultimately show ?thesis by (auto simp: getHint_def Let_def split: list.splits)
qed

theorem getHint_masks_back_witness:
  "js ''language'' \<in> set (tags \<lparr>front = [], back' = js ''test'', hint = [], tags = [js ''language'']\<rparr>)
   \<and> getHint \<lparr>front = [], back' = js ''test'', hint = [], tags = [js ''language'']\<rparr> = js ''t___''
   \<and> getHint \<lparr>front = [], back' = js '' '', hint = js ''h'', tags = [js ''language'']\<rparr> = []
   \<and> js ''language'' \<notin> set (tags \<lparr>front = [], back' = [], hint = js ''math hint'', tags = [js ''math'']\<rparr>)
   \<and> getHint \<lparr>front = [], back' = [], hint = js ''math hint'', tags = [js ''math'']\<rparr> = js ''math hint''"
  using getHint_masks_back [of "\<lparr>front = [], back' = js ''test'', hint = [], tags = [js ''language'']\<rparr>"]
    getHint_masks_back [of "\<lparr>front = [], back' = js '' '', hint = js ''h'', tags = [js ''language'']\<rparr>"]
    getHint_masks_back [of "\<lparr>front = [], back' = [], hint = js ''math hint'', tags = [js ''math'']\<rparr>"]
  by (simp add: js_def is_space_def)

section \<open>Properties of computeProgress\<close>

text \<open>
  The two \<^verbatim>\<open>reduce\<close> calls are sums, and the map of practice counts holds, for each
  card of the history, the number of entries of the history with that card.
\<close>

lemma fold_add_sizes: "fold (\<lambda>s sum. sum + fcard s) xs n = n + sum_list (map fcard xs)"
  by (induction xs arbitrary: n) simp_all

lemma fold_add_values: "fold (\<lambda>b a. a + b) xs (n::nat) = n + sum_list xs"
  by (induction xs arbitrary: n) simp_all

lemma map_set_keys: "fst ` set (map_set k v m) = insert k (fst ` set m)"
  by (induction m) auto

lemma map_set_mem:
  assumes "(a, b) \<in> set (map_set k v m)"
  shows "a = k \<or> a \<in> fst ` set m"
proof -
  have "a \<in> fst ` set (map_set k v m)" using assms by force
  then show ?thesis by (simp add: map_set_keys)
qed

lemma map_set_distinct: "distinct (map fst m) \<Longrightarrow> distinct (map fst (map_set k v m))"
  by (induction m) (auto dest: map_set_mem)

lemma practiceCounts_fold:
  assumes "distinct (map fst pc)"
  shows "distinct (map fst (fold (\<lambda>entry pc.
                      map_set (entry_card entry)
                        ((case map_get (entry_card entry) pc of None \<Rightarrow> 0 | Some n \<Rightarrow> n) + 1) pc)
                   history pc))
    \<and> set (map fst (fold (\<lambda>entry pc.
                      map_set (entry_card entry)
                        ((case map_get (entry_card entry) pc of None \<Rightarrow> 0 | Some n \<Rightarrow> n) + 1) pc)
                   history pc)) = set (map fst pc) \<union> entry_card ` set history
    \<and> (\<forall>c. (case map_get c (fold (\<lambda>entry pc.
                      map_set (entry_card entry)
                        ((case map_get (entry_card entry) pc of None \<Rightarrow> 0 | Some n \<Rightarrow> n) + 1) pc)
                   history pc) of None \<Rightarrow> 0 | Some n \<Rightarrow> n)
          = (case map_get c pc of None \<Rightarrow> 0 | Some n \<Rightarrow> n) + count_list (map entry_card history) c)"
  using assms
proof (induction history arbitrary: pc)
  case Nil
  then show ?case by simp
next
  case (Cons e history)
  let ?pc1 = "map_set (entry_card e)
                 ((case map_get (entry_card e) pc of None \<Rightarrow> 0 | Some n \<Rightarrow> n) + 1) pc"
  have d1: "distinct (map fst ?pc1)" using Cons.prems by (rule map_set_distinct)
  have k1: "set (map fst ?pc1) = insert (entry_card e) (set (map fst pc))"
    by (simp add: map_set_keys)
  have v1: "(case map_get c ?pc1 of None \<Rightarrow> 0 | Some n \<Rightarrow> n)
      = (case map_get c pc of None \<Rightarrow> 0 | Some n \<Rightarrow> n) + (if entry_card e = c then 1 else 0)" for c
    by (auto simp: map_get_set)
  show ?case using Cons.IH [OF d1] k1 v1 by auto
qed

lemma sum_values:
  assumes "distinct (map fst pc)"
  shows "sum_list (map snd pc) =
           (\<Sum>k \<in> set (map fst pc). case map_get k pc of None \<Rightarrow> 0 | Some (n::nat) \<Rightarrow> n)"
proof -
  let ?v = "\<lambda>k. case map_get k pc of None \<Rightarrow> 0 | Some (n::nat) \<Rightarrow> n"
  have "sum_list (map snd pc) = (\<Sum>e\<leftarrow>pc. ?v (fst e))"
    using map_get_of_mem [OF assms]
    by (intro arg_cong [where f = sum_list] map_cong) (auto split: option.splits)
  also have "\<dots> = (\<Sum>k\<leftarrow>map fst pc. ?v k)" by (simp add: comp_def)
  also have "\<dots> = sum ?v (set (map fst pc))"
    using assms by (rule sum_list_distinct_conv_sum_set)
  finally show ?thesis .
qed

lemma math_max_snoc_0: "math_max (xs @ [0]) = Some (Max (insert 0 (set xs)))"
  using math_max_Max [of "xs @ [0]"] by simp

text \<open>
  The division: its result is within half a unit in the last place of the exact quotient,
  so within the fraction \<open>2 ^ -53\<close> of it, and it is a double of the quotient's binade,
  with a significand of 53 bits.
\<close>

lemma round_half_even_error: "\<bar>of_int (round_half_even x) - x\<bar> \<le> 1 / 2"
proof -
  have "of_int \<lfloor>x\<rfloor> \<le> x" "x < of_int \<lfloor>x\<rfloor> + 1" by linarith+
  then show ?thesis by (auto simp: round_half_even_def Let_def)
qed

lemma bitlen_rat_bounds:
  assumes "0 < n"
  shows "2 powi (bitlen (int n) - 1) \<le> (of_nat n :: rat)" "(of_nat n :: rat) < 2 powi bitlen (int n)"
proof -
  let ?b = "bitlen (int n)"
  from bitlen_bounds [of "int n"] assms
  have lo: "2 ^ nat (?b - 1) \<le> int n" and hi: "int n < 2 ^ nat ?b" by simp_all
  have b1: "1 \<le> ?b" using assms bitlen_eq_zero_iff [of "int n"] bitlen_nonneg [of "int n"] by linarith
  have "(2::rat) ^ nat (?b - 1) \<le> of_int (int n)"
    using lo by (metis of_int_le_iff of_int_numeral of_int_power)
  then show "2 powi (?b - 1) \<le> (of_nat n :: rat)" using b1 by (simp add: power_int_def)
  have "(of_int (int n) :: rat) < 2 ^ nat ?b"
    using hi by (metis of_int_less_iff of_int_numeral of_int_power)
  then show "(of_nat n :: rat) < 2 powi ?b" using b1 by (simp add: power_int_def)
qed

lemma binade_bounds:
  assumes "0 < p" "0 < t"
  shows "2 powi binade p t \<le> (of_nat p / of_nat t :: rat)"
    and "(of_nat p / of_nat t :: rat) < 2 powi (binade p t + 1)"
proof -
  let ?x = "of_nat p / of_nat t :: rat"
  let ?bp = "bitlen (int p)" and ?bt = "bitlen (int t)"
  have tp: "(0::rat) < of_nat t" "(0::rat) < of_nat p" using assms by simp_all
  have lo: "2 powi (?bp - ?bt - 1) < ?x"
  proof -
    have "2 powi (?bp - ?bt - 1) * of_nat t < (2 powi (?bp - ?bt - 1) * 2 powi ?bt :: rat)"
      using bitlen_rat_bounds(2) [OF assms(2)] by (intro mult_strict_left_mono) simp_all
    also have "\<dots> = 2 powi (?bp - 1)" by (simp add: power_int_add [symmetric])
    also have "\<dots> \<le> of_nat p" using bitlen_rat_bounds(1) [OF assms(1)] .
    finally show ?thesis using tp by (simp add: pos_less_divide_eq)
  qed
  have hi: "?x < 2 powi (?bp - ?bt + 1)"
  proof -
    have "(of_nat p :: rat) < 2 powi ?bp" using bitlen_rat_bounds(2) [OF assms(1)] .
    also have "\<dots> = 2 powi (?bp - ?bt + 1) * 2 powi (?bt - 1)" by (simp add: power_int_add [symmetric])
    also have "\<dots> \<le> 2 powi (?bp - ?bt + 1) * of_nat t"
      using bitlen_rat_bounds(1) [OF assms(2)] by (intro mult_left_mono) simp_all
    finally show ?thesis using tp by (simp add: pos_divide_less_eq)
  qed
  show "2 powi binade p t \<le> ?x" using lo by (auto simp: binade_def Let_def)
  show "?x < 2 powi (binade p t + 1)" using hi by (auto simp: binade_def Let_def not_le)
qed

lemma js_div_error_pos:
  assumes "0 < p" "0 < t"
  shows "\<bar>js_div p t - of_nat p / of_nat t\<bar> \<le> of_nat p / of_nat t / 2 ^ 53"
proof -
  let ?x = "of_nat p / of_nat t :: rat"
  let ?e = "binade p t"
  let ?m = "round_half_even (?x * 2 powi (52 - ?e))"
  have j: "js_div p t = of_int ?m * 2 powi (?e - 52)" using assms by (simp add: js_div_def Let_def)
  have s: "?x = (?x * 2 powi (52 - ?e)) * 2 powi (?e - 52)"
    by (simp add: power_int_add [symmetric] mult.assoc)
  have "js_div p t - ?x = (of_int ?m - ?x * 2 powi (52 - ?e)) * 2 powi (?e - 52)"
    unfolding j by (subst (2) s) (simp only: left_diff_distrib)
  then have "\<bar>js_div p t - ?x\<bar> = \<bar>of_int ?m - ?x * 2 powi (52 - ?e)\<bar> * 2 powi (?e - 52)"
    by (simp add: abs_mult)
  also have "\<dots> \<le> 1 / 2 * 2 powi (?e - 52)"
    using round_half_even_error [of "?x * 2 powi (52 - ?e)"] by (intro mult_right_mono) simp_all
  also have "\<dots> = 2 powi ?e / 2 ^ 53"
    by (simp add: power_int_diff)
  also have "\<dots> \<le> ?x / 2 ^ 53"
    using binade_bounds(1) [OF assms] by (simp add: divide_right_mono)
  finally show ?thesis .
qed


lemma js_div_error:
  assumes "0 < t"
  shows "\<bar>js_div p t - of_nat p / of_nat t\<bar> \<le> of_nat p / of_nat t / 2 ^ 53"
proof (cases "p = 0")
  case True
  then show ?thesis by (simp add: js_div_def)
next
  case False
  then show ?thesis using js_div_error_pos [of p t] assms by simp
qed

lemma round_half_even_range:
  assumes "of_int a \<le> x" "x < of_int b"
  shows "a \<le> round_half_even x" "round_half_even x \<le> b"
proof -
  have "a \<le> \<lfloor>x\<rfloor>" using assms(1) by (simp add: le_floor_iff)
  moreover have "\<lfloor>x\<rfloor> < b" using assms(2) by (simp add: floor_less_iff)
  ultimately show "a \<le> round_half_even x" "round_half_even x \<le> b"
    by (auto simp: round_half_even_def Let_def)
qed

lemma js_div_significand:
  assumes "0 < p" "0 < t"
  shows "\<exists>m. 2 ^ 52 \<le> m \<and> m \<le> 2 ^ 53 \<and> js_div p t = of_int m * 2 powi (binade p t - 52)"
proof -
  let ?x = "of_nat p / of_nat t :: rat"
  let ?e = "binade p t"
  let ?y = "?x * 2 powi (52 - ?e)"
  have "2 powi ?e * 2 powi (52 - ?e) \<le> ?y"
    using binade_bounds(1) [OF assms] by (intro mult_right_mono) simp_all
  then have lo: "of_int (2 ^ 52) \<le> ?y" by (simp add: power_int_add [symmetric])
  have "?y < 2 powi (?e + 1) * 2 powi (52 - ?e)"
    using binade_bounds(2) [OF assms] by (intro mult_strict_right_mono) simp_all
  then have hi: "?y < of_int (2 ^ 53)" by (simp add: power_int_add [symmetric])
  from round_half_even_range [OF lo hi]
  show ?thesis using assms by (intro exI [of _ "round_half_even ?y"]) (simp add: js_div_def Let_def)
qed

text \<open>
  Claim C5: \<^verbatim>\<open>computeProgress\<close> fails, with the error for an empty history, exactly
  when the history is empty. For a history that is not empty it returns: as total, the sum
  of the sizes of the sets of the mapping; as bucket counts, the number of cards of every
  bucket from 0 to the largest bucket number of the mapping (the one entry for bucket 0
  when the mapping is empty); as average, 0 when the total is 0, and otherwise the sum over
  the distinct cards of the history of the number of entries with that card, divided by
  the total: the quotient as a double, which differs from the exact quotient by at most
  the fraction \<open>2 ^ -53\<close> of it. The mapping \<open>{0: {card 1}}\<close> with the history of one
  Easy answer to card 1 gives total 1, bucket counts \<open>[1]\<close> and average 1.
\<close>

theorem computeProgress_statistics:
  "(computeProgress h m history = Inl HistoryEmpty \<longleftrightarrow> history = [])
   \<and> (history \<noteq> [] \<longrightarrow>
        computeProgress h m history =
          Inr \<lparr>total = (\<Sum>e\<leftarrow>m. fcard (h ! snd e)),
               buckets = map (\<lambda>i. fcard (bucket_cards h m i)) [0..Max (insert 0 (fst ` set m))],
               averagePractices =
                 (if (\<Sum>e\<leftarrow>m. fcard (h ! snd e)) = 0 then 0
                  else js_div (\<Sum>c \<in> entry_card ` set history. count_list (map entry_card history) c)
                         (\<Sum>e\<leftarrow>m. fcard (h ! snd e)))\<rparr>)
   \<and> ((\<Sum>e\<leftarrow>m. fcard (h ! snd e)) \<noteq> 0 \<longrightarrow>
        \<bar>js_div (\<Sum>c \<in> entry_card ` set history. count_list (map entry_card history) c)
             (\<Sum>e\<leftarrow>m. fcard (h ! snd e))
          - of_nat (\<Sum>c \<in> entry_card ` set history. count_list (map entry_card history) c)
            / of_nat (\<Sum>e\<leftarrow>m. fcard (h ! snd e))\<bar>
        \<le> of_nat (\<Sum>c \<in> entry_card ` set history. count_list (map entry_card history) c)
            / of_nat (\<Sum>e\<leftarrow>m. fcard (h ! snd e)) / 2 ^ 53)
   \<and> (history \<noteq> [] \<longrightarrow> m = [] \<longrightarrow>
        computeProgress h m history = Inr \<lparr>total = 0, buckets = [0], averagePractices = 0\<rparr>)"
proof -
  let ?pc = "fold (\<lambda>entry pc.
                      map_set (entry_card entry)
                        ((case map_get (entry_card entry) pc of None \<Rightarrow> 0 | Some n \<Rightarrow> n) + 1) pc)
                   history ([] :: ('a \<times> nat) list)"
  let ?T = "\<Sum>e\<leftarrow>m. fcard (h ! snd e)"
  let ?P = "\<Sum>c \<in> entry_card ` set history. count_list (map entry_card history) c"
  have tot: "fold (\<lambda>s sum. sum + fcard s) (map (\<lambda>e. h ! snd e) m) 0 = ?T"
    by (simp add: fold_add_sizes comp_def)
  have cnt: "(\<lambda>i. case map_get i m of None \<Rightarrow> 0 | Some a \<Rightarrow> fcard (h ! a)) = (\<lambda>i. fcard (bucket_cards h m i))"
    by (auto simp: bucket_cards_def split: option.splits)
  from practiceCounts_fold [of "[]" history]
  have d: "distinct (map fst ?pc)" and k: "set (map fst ?pc) = entry_card ` set history"
    and v: "\<And>c. (case map_get c ?pc of None \<Rightarrow> 0 | Some n \<Rightarrow> n) = count_list (map entry_card history) c"
    by (simp_all add: map_get_def)
  have pr: "fold (\<lambda>b a. a + b) (map snd ?pc) 0 = ?P"
    using sum_values [OF d] k v by (simp add: fold_add_values)
  have main: "computeProgress h m history =
          Inr \<lparr>total = ?T,
               buckets = map (\<lambda>i. fcard (bucket_cards h m i)) [0..Max (insert 0 (fst ` set m))],
               averagePractices = (if ?T = 0 then 0 else js_div ?P ?T)\<rparr>"
    if "history \<noteq> []"
    using that unfolding computeProgress_def Let_def tot cnt pr math_max_snoc_0
    by simp
  have err: "computeProgress h m [] = Inl HistoryEmpty" by (simp add: computeProgress_def)
  have near: "\<bar>js_div ?P ?T - of_nat ?P / of_nat ?T\<bar> \<le> of_nat ?P / of_nat ?T / 2 ^ 53"
    if "?T \<noteq> 0"
  proof -
    from that have "0 < ?T" by linarith
    then show ?thesis by (rule js_div_error)
  qed
  have empty: "computeProgress h [] history = Inr \<lparr>total = 0, buckets = [0], averagePractices = 0\<rparr>"
    if "history \<noteq> []"
    using that by (simp add: computeProgress_def Let_def map_get_def)
  show ?thesis
  proof (intro conjI impI)
    show "computeProgress h m history = Inl HistoryEmpty \<longleftrightarrow> history = []"
      using main err by (cases "history = []") auto
  qed (use main near empty in blast)+
qed

theorem computeProgress_statistics_witness:
  "[\<lparr>entry_card = 1::nat, date = 0, difficulty = Easy\<rparr>] \<noteq> []
   \<and> computeProgress [{|1::nat|}] [(0, 0)] [\<lparr>entry_card = 1, date = 0, difficulty = Easy\<rparr>]
       = Inr \<lparr>total = 1, buckets = [1], averagePractices = 1\<rparr>
   \<and> computeProgress [{|1::nat, 2, 3|}] [(0, 0)] [\<lparr>entry_card = 1, date = 0, difficulty = Easy\<rparr>]
       = Inr \<lparr>total = 3, buckets = [3], averagePractices = 6004799503160661 / 2 ^ 54\<rparr>
   \<and> computeProgress ([] :: nat heap) [] [] = Inl HistoryEmpty"
proof -
  have 1: "fcard {|1::nat|} = 1" by code_simp
  have 2: "js_div 1 1 = 1" by code_simp
  have 3: "computeProgress [{|1::nat, 2, 3|}] [(0, 0)] [\<lparr>entry_card = 1, date = 0, difficulty = Easy\<rparr>]
       = Inr \<lparr>total = 3, buckets = [3], averagePractices = 6004799503160661 / 2 ^ 54\<rparr>"
    by code_simp
  show ?thesis
    using 1 2 3 computeProgress_statistics [of "[{|1::nat|}]" "[(0, 0)]" "[\<lparr>entry_card = 1, date = 0, difficulty = Easy\<rparr>]"]
      computeProgress_statistics [of "[] :: nat heap" "[]" "[]"]
    by (simp add: bucket_cards_def map_get_def)
qed

end
